theory Spec2Isabelle
  imports Main "HOL-Library.Sublist"
begin

section \<open>The profile-page verification script\<close>

text \<open>
  The repository is one Python script, \<^verbatim>\<open>verify_profile_page.py\<close>. It drives a page of a
  browser through a login and a menu navigation and saves a screenshot. The script is
  embedded statement by statement; the browser-automation library and the application
  behind the page are an environment the script is run against.
\<close>

subsection \<open>Patterns of the URL assertions\<close>

text \<open>
  The two patterns of the script, \<^verbatim>\<open>re.compile(r".*/dashboard")\<close> and
  \<^verbatim>\<open>re.compile(r".*/profile")\<close>, are built from literal characters, the dot and the star.
  A pattern is the list of its pieces. The dot matches every character but the newline.
\<close>

datatype atom = Lit char | Dot

datatype piece = One atom | Many atom

type_synonym pattern = "piece list"

fun atom_ok :: "atom \<Rightarrow> char \<Rightarrow> bool" where
  "atom_ok (Lit c) x = (x = c)"
| "atom_ok Dot x = (x \<noteq> CHR 0x0A)"

text \<open>\<open>match_here ps s\<close>: the pattern matches at the start of \<open>s\<close> (what \<^verbatim>\<open>re.match\<close>
  decides). Nothing anchors the match at the end of \<open>s\<close>.\<close>

fun match_here :: "pattern \<Rightarrow> string \<Rightarrow> bool" where
  "match_here [] s = True"
| "match_here (One a # ps) [] = False"
| "match_here (One a # ps) (x # xs) = (atom_ok a x \<and> match_here ps xs)"
| "match_here (Many a # ps) [] = match_here ps []"
| "match_here (Many a # ps) (x # xs) =
     ((atom_ok a x \<and> match_here (Many a # ps) xs) \<or> match_here ps (x # xs))"

text \<open>\<open>re_search ps s\<close>: the pattern matches somewhere in \<open>s\<close>. This is the test the URL
  assertion applies to a compiled pattern.\<close>

fun re_search :: "pattern \<Rightarrow> string \<Rightarrow> bool" where
  "re_search ps [] = match_here ps []"
| "re_search ps (x # xs) = (match_here ps (x # xs) \<or> re_search ps xs)"

definition lits :: "string \<Rightarrow> pattern" where
  "lits s = map (\<lambda>c. One (Lit c)) s"

definition dashboard_re :: pattern where
  "dashboard_re = Many Dot # lits ''/dashboard''"

definition profile_re :: pattern where
  "profile_re = Many Dot # lits ''/profile''"

subsection \<open>Locators, calls and errors\<close>

datatype locator = ByLabel string | ByRole string string

definition get_by_label :: "string \<Rightarrow> locator" where
  "get_by_label l = ByLabel l"

definition get_by_role :: "string \<Rightarrow> string \<Rightarrow> locator" where
  "get_by_role r n = ByRole r n"

text \<open>A call of the library, with the arguments the script passes. \<open>Screenshot\<close> carries
  the \<^verbatim>\<open>path\<close> and the optional \<^verbatim>\<open>full_page\<close> keyword (\<open>None\<close>: not passed).\<close>

datatype call =
    Goto string
  | Fill locator string
  | Click locator
  | ExpectUrl pattern
  | ExpectVisible locator
  | Screenshot string "bool option"
  | Launch bool
  | NewPage
  | CloseBrowser
  | EnterPlaywright
  | ExitPlaywright

datatype error =
    NavigationError | LocatorError | AssertionTimeoutError | CaptureError | BrowserError

subsection \<open>The environment: the page and the application behind it\<close>

text \<open>
  \<open>'w\<close> is the state of the page together with the application it shows. The environment
  says how a navigation, a fill and a click change it or fail, what the page's URL is,
  which elements are visible, how the state moves from one poll of an assertion to the
  next, how many polls fit the assertion timeout, and what a capture of the page (of the
  full page, or of the viewport) returns.

  It also answers the resource calls of the entry point, each of which may raise: whether
  the browser starts (\<open>None\<close>) or the launch fails, the state a newly opened page shows
  (the application keeps its own state, the page starts afresh) or the error of opening
  it, and whether closing the browser fails. Whether stopping the driver closes the
  browsers it launched is the library's matter and not the script's: it is the parameter
  \<open>env_stop_releases\<close>.
\<close>

record 'w browser_env =
  env_launch :: "bool \<Rightarrow> error option"
  env_new_page :: "'w \<Rightarrow> error + 'w"
  env_close :: "'w \<Rightarrow> error option"
  env_stop_releases :: bool
  env_goto :: "string \<Rightarrow> 'w \<Rightarrow> error + 'w"
  env_fill :: "locator \<Rightarrow> string \<Rightarrow> 'w \<Rightarrow> error + 'w"
  env_click :: "locator \<Rightarrow> 'w \<Rightarrow> error + 'w"
  env_url :: "'w \<Rightarrow> string"
  env_visible :: "locator \<Rightarrow> 'w \<Rightarrow> bool"
  env_tick :: "'w \<Rightarrow> 'w"
  env_polls :: nat
  env_capture :: "bool \<Rightarrow> 'w \<Rightarrow> error + string"

subsection \<open>The process\<close>

text \<open>
  The process running the script: the page state, the file system (absolute path to
  content), the working directory, the command line and the environment variables, the
  resources the library holds (the driver, the live browsers and pages), and the trace of
  the calls made so far, each with the number of live browsers and pages after it.
\<close>

record 'w process =
  page_world :: 'w
  files :: "string \<rightharpoonup> string"
  cwd :: string
  argv :: "string list"
  environ :: "string \<rightharpoonup> string"
  driver_running :: bool
  browsers :: nat
  pages :: nat
  trace :: "(call \<times> nat \<times> nat) list"

type_synonym 'w step = "'w process \<Rightarrow> (error + unit) \<times> 'w process"

definition calls :: "'w process \<Rightarrow> call list" where
  "calls s = map fst (trace s)"

definition record_call :: "call \<Rightarrow> 'w process \<Rightarrow> 'w process" where
  "record_call c s = s\<lparr>trace := trace s @ [(c, browsers s, pages s)]\<rparr>"

text \<open>One statement after another: an exception of the first skips the second.\<close>

definition then_do :: "'w step \<Rightarrow> 'w step \<Rightarrow> 'w step" where
  "then_do f g s = (case f s of (Inl e, s') \<Rightarrow> (Inl e, s') | (Inr u, s') \<Rightarrow> g s')"

subsection \<open>The library calls\<close>

definition page_goto :: "'w browser_env \<Rightarrow> string \<Rightarrow> 'w step" where
  "page_goto env url s =
     (let s' = record_call (Goto url) s in
      case env_goto env url (page_world s') of
        Inl e \<Rightarrow> (Inl e, s')
      | Inr w \<Rightarrow> (Inr (), s'\<lparr>page_world := w\<rparr>))"

definition locator_fill :: "'w browser_env \<Rightarrow> locator \<Rightarrow> string \<Rightarrow> 'w step" where
  "locator_fill env l v s =
     (let s' = record_call (Fill l v) s in
      case env_fill env l v (page_world s') of
        Inl e \<Rightarrow> (Inl e, s')
      | Inr w \<Rightarrow> (Inr (), s'\<lparr>page_world := w\<rparr>))"

definition locator_click :: "'w browser_env \<Rightarrow> locator \<Rightarrow> 'w step" where
  "locator_click env l s =
     (let s' = record_call (Click l) s in
      case env_click env l (page_world s') of
        Inl e \<Rightarrow> (Inl e, s')
      | Inr w \<Rightarrow> (Inr (), s'\<lparr>page_world := w\<rparr>))"

text \<open>A polling assertion: the condition is tested now and after each of at most \<open>n\<close>
  further ticks; it holds as soon as one test succeeds and times out when none does.\<close>

fun poll :: "('w \<Rightarrow> bool) \<Rightarrow> ('w \<Rightarrow> 'w) \<Rightarrow> nat \<Rightarrow> 'w \<Rightarrow> bool \<times> 'w" where
  "poll ok tick 0 w = (ok w, w)"
| "poll ok tick (Suc n) w = (if ok w then (True, w) else poll ok tick n (tick w))"

definition expect_to_have_url :: "'w browser_env \<Rightarrow> pattern \<Rightarrow> 'w step" where
  "expect_to_have_url env pat s =
     (let s' = record_call (ExpectUrl pat) s;
          (hit, w) = poll (\<lambda>w. re_search pat (env_url env w)) (env_tick env) (env_polls env)
                       (page_world s')
      in (if hit then Inr () else Inl AssertionTimeoutError, s'\<lparr>page_world := w\<rparr>))"

definition expect_to_be_visible :: "'w browser_env \<Rightarrow> locator \<Rightarrow> 'w step" where
  "expect_to_be_visible env l s =
     (let s' = record_call (ExpectVisible l) s;
          (hit, w) = poll (env_visible env l) (env_tick env) (env_polls env) (page_world s')
      in (if hit then Inr () else Inl AssertionTimeoutError, s'\<lparr>page_world := w\<rparr>))"

text \<open>The library's default for the \<^verbatim>\<open>full_page\<close> keyword of \<^verbatim>\<open>Page.screenshot\<close>: a call
  that does not pass it captures the viewport.\<close>

definition full_page_default :: bool where
  "full_page_default = False"

text \<open>A relative path names a file below the working directory of the process.\<close>

definition resolve :: "string \<Rightarrow> string \<Rightarrow> string" where
  "resolve dir path =
     (if path \<noteq> [] \<and> hd path = CHR ''/'' then path
      else if dir \<noteq> [] \<and> last dir = CHR ''/'' then dir @ path
      else dir @ ''/'' @ path)"

text \<open>The image is captured first and written to the file after that; a capture that
  fails writes nothing.\<close>

definition page_screenshot :: "'w browser_env \<Rightarrow> string \<Rightarrow> bool option \<Rightarrow> 'w step" where
  "page_screenshot env path full_page s =
     (let s' = record_call (Screenshot path full_page) s;
          full = (case full_page of None \<Rightarrow> full_page_default | Some b \<Rightarrow> b)
      in case env_capture env full (page_world s') of
           Inl e \<Rightarrow> (Inl e, s')
         | Inr img \<Rightarrow> (Inr (), s'\<lparr>files := (files s')(resolve (cwd s') path \<mapsto> img)\<rparr>))"

text \<open>
  The resource calls of the entry point. Entering the \<^verbatim>\<open>with sync_playwright()\<close> block
  starts the driver. \<^verbatim>\<open>p.chromium.launch(headless=True)\<close> gives one more live browser or
  raises; \<^verbatim>\<open>browser.new_page()\<close> gives one more live page, showing what a fresh page
  shows, or raises; \<^verbatim>\<open>browser.close()\<close> closes the browser and its pages or raises, and a
  close that raises closes nothing. Leaving the block stops the driver; the browsers and
  pages still live then are closed with it exactly when the environment says the library
  does that.
\<close>

definition playwright_enter :: "'w process \<Rightarrow> 'w process" where
  "playwright_enter s = record_call EnterPlaywright (s\<lparr>driver_running := True\<rparr>)"

definition playwright_exit :: "'w browser_env \<Rightarrow> 'w process \<Rightarrow> 'w process" where
  "playwright_exit env s =
     record_call ExitPlaywright
       (if env_stop_releases env
        then s\<lparr>driver_running := False, browsers := 0, pages := 0\<rparr>
        else s\<lparr>driver_running := False\<rparr>)"

definition chromium_launch :: "'w browser_env \<Rightarrow> bool \<Rightarrow> 'w step" where
  "chromium_launch env headless s =
     (case env_launch env headless of
        Some e \<Rightarrow> (Inl e, record_call (Launch headless) s)
      | None \<Rightarrow> (Inr (), record_call (Launch headless) (s\<lparr>browsers := Suc (browsers s)\<rparr>)))"

definition browser_new_page :: "'w browser_env \<Rightarrow> 'w step" where
  "browser_new_page env s =
     (case env_new_page env (page_world s) of
        Inl e \<Rightarrow> (Inl e, record_call NewPage s)
      | Inr w \<Rightarrow> (Inr (), record_call NewPage (s\<lparr>pages := Suc (pages s), page_world := w\<rparr>)))"

definition browser_close :: "'w browser_env \<Rightarrow> 'w step" where
  "browser_close env s =
     (case env_close env (page_world s) of
        Some e \<Rightarrow> (Inl e, record_call CloseBrowser s)
      | None \<Rightarrow>
          (Inr (), record_call CloseBrowser (s\<lparr>browsers := browsers s - 1, pages := 0\<rparr>)))"

text \<open>The \<^verbatim>\<open>with\<close> statement: the exit handler runs however the body ends, and the
  body's exception, if any, goes on to the caller.\<close>

definition with_sync_playwright :: "'w browser_env \<Rightarrow> 'w step \<Rightarrow> 'w step" where
  "with_sync_playwright env body s =
     (case body (playwright_enter s) of (r, s') \<Rightarrow> (r, playwright_exit env s'))"

subsection \<open>The script\<close>

definition verify_profile_page :: "'w browser_env \<Rightarrow> 'w step" where
  "verify_profile_page env =
     then_do (page_goto env ''http://localhost:3000/admin/login'')
    (then_do (locator_fill env (get_by_label ''Email Address'') ''admin@gorectus.local'')
    (then_do (locator_fill env (get_by_label ''Password'') ''admin123'')
    (then_do (locator_click env (get_by_role ''button'' ''Sign In''))
    (then_do (expect_to_have_url env dashboard_re)
    (then_do (locator_click env (get_by_label ''account of current user''))
    (then_do (locator_click env (get_by_role ''menuitem'' ''Profile''))
    (then_do (expect_to_have_url env profile_re)
    (then_do (expect_to_be_visible env (get_by_role ''heading'' ''My Profile''))
             (page_screenshot env ''jules-scratch/verification/profile_page.png'' None)))))))))"

definition main :: "'w browser_env \<Rightarrow> 'w step" where
  "main env =
     with_sync_playwright env
       (then_do (chromium_launch env True)
       (then_do (browser_new_page env)
       (then_do (verify_profile_page env)
                (browser_close env))))"

text \<open>The exit status of the interpreter: 1 when an exception leaves \<^verbatim>\<open>main\<close>, 0 when
  \<^verbatim>\<open>main\<close> returns.\<close>

definition exit_status :: "error + unit \<Rightarrow> nat" where
  "exit_status r = (case r of Inl e \<Rightarrow> 1 | Inr u \<Rightarrow> 0)"

subsection \<open>The scenario as a list of operations\<close>

text \<open>One call of the library, by its name and arguments.\<close>

fun perform :: "'w browser_env \<Rightarrow> call \<Rightarrow> 'w step" where
  "perform env (Goto u) = page_goto env u"
| "perform env (Fill l v) = locator_fill env l v"
| "perform env (Click l) = locator_click env l"
| "perform env (ExpectUrl p) = expect_to_have_url env p"
| "perform env (ExpectVisible l) = expect_to_be_visible env l"
| "perform env (Screenshot p f) = page_screenshot env p f"
| "perform env (Launch h) = chromium_launch env h"
| "perform env NewPage = browser_new_page env"
| "perform env CloseBrowser = browser_close env"
| "perform env EnterPlaywright = (\<lambda>s. (Inr (), playwright_enter s))"
| "perform env ExitPlaywright = (\<lambda>s. (Inr (), playwright_exit env s))"

text \<open>Running a list of calls in order, each after the one before it has returned,
  stopping at the first that fails.\<close>

fun run_seq :: "'w browser_env \<Rightarrow> call list \<Rightarrow> 'w step" where
  "run_seq env [] s = (Inr (), s)"
| "run_seq env (c # cs) s =
     (case perform env c s of (Inl e, s') \<Rightarrow> (Inl e, s') | (Inr u, s') \<Rightarrow> run_seq env cs s')"

text \<open>The nine operations of the scenario in their order; the eighth asserts the URL and
  then the heading.\<close>

definition script_calls :: "call list" where
  "script_calls =
     [Goto ''http://localhost:3000/admin/login'',
      Fill (ByLabel ''Email Address'') ''admin@gorectus.local'',
      Fill (ByLabel ''Password'') ''admin123'',
      Click (ByRole ''button'' ''Sign In''),
      ExpectUrl dashboard_re,
      Click (ByLabel ''account of current user''),
      Click (ByRole ''menuitem'' ''Profile''),
      ExpectUrl profile_re,
      ExpectVisible (ByRole ''heading'' ''My Profile''),
      Screenshot ''jules-scratch/verification/profile_page.png'' None]"

definition page_call :: "call \<Rightarrow> bool" where
  "page_call c =
     (case c of Goto u \<Rightarrow> True | Fill l v \<Rightarrow> True | Click l \<Rightarrow> True | ExpectUrl p \<Rightarrow> True
      | ExpectVisible l \<Rightarrow> True | Screenshot p f \<Rightarrow> True | _ \<Rightarrow> False)"

text \<open>The calls of the body of the \<^verbatim>\<open>with\<close> block, in their order.\<close>

definition body_calls :: "call list" where
  "body_calls = [Launch True, NewPage] @ script_calls @ [CloseBrowser]"

text \<open>The entry point reaches the script when the launch and the opening of the page
  succeed. \<open>launched\<close> is the state in which the script then starts: the driver entered,
  the browser launched headless and the page opened.\<close>

definition reaches_script :: "'w browser_env \<Rightarrow> 'w process \<Rightarrow> bool" where
  "reaches_script env s =
     (env_launch env True = None
      \<and> (case env_new_page env (page_world s) of Inl e \<Rightarrow> False | Inr w \<Rightarrow> True))"

definition launched :: "'w browser_env \<Rightarrow> 'w process \<Rightarrow> 'w process" where
  "launched env s =
     snd (browser_new_page env (snd (chromium_launch env True (playwright_enter s))))"

text \<open>What one run of the entry point adds to the trace, and the calls of that run.\<close>

definition run_trace :: "'w browser_env \<Rightarrow> 'w process \<Rightarrow> (call \<times> nat \<times> nat) list" where
  "run_trace env s = drop (length (trace s)) (trace (snd (main env s)))"

definition run_calls :: "'w browser_env \<Rightarrow> 'w process \<Rightarrow> call list" where
  "run_calls env s = map fst (run_trace env s)"


definition carries_input :: "call \<Rightarrow> bool" where
  "carries_input c = (case c of Goto u \<Rightarrow> True | Fill l v \<Rightarrow> True | _ \<Rightarrow> False)"

text \<open>The calls a run of a list of calls makes, from a given state on.\<close>

definition made :: "'w browser_env \<Rightarrow> call list \<Rightarrow> 'w process \<Rightarrow> call list" where
  "made env cs s = drop (length (calls s)) (calls (snd (run_seq env cs s)))"

subsection \<open>A sample application\<close>

text \<open>
  An application with the pages the script visits, for running the model on concrete
  inputs. Its parameters are the URL of the dashboard and whether the account menu has
  the Profile item. A capture returns a different image for the full page and for the
  viewport.
\<close>

datatype demo_page = Blank | LoginPage | DashboardPage | MenuOpen | ProfilePage

definition demo_url :: "string \<Rightarrow> demo_page \<Rightarrow> string" where
  "demo_url dash w =
     (case w of Blank \<Rightarrow> ''about:blank''
      | LoginPage \<Rightarrow> ''http://localhost:3000/admin/login''
      | DashboardPage \<Rightarrow> dash
      | MenuOpen \<Rightarrow> dash
      | ProfilePage \<Rightarrow> ''http://localhost:3000/profile'')"

definition demo_click :: "bool \<Rightarrow> locator \<Rightarrow> demo_page \<Rightarrow> error + demo_page" where
  "demo_click has_item l w =
     (if w = LoginPage \<and> l = ByRole ''button'' ''Sign In'' then Inr DashboardPage
      else if w = DashboardPage \<and> l = ByLabel ''account of current user'' then Inr MenuOpen
      else if w = MenuOpen \<and> has_item \<and> l = ByRole ''menuitem'' ''Profile'' then Inr ProfilePage
      else Inl LocatorError)"

definition demo_env :: "string \<Rightarrow> bool \<Rightarrow> demo_page browser_env" where
  "demo_env dash has_item =
     \<lparr>env_launch = (\<lambda>h. None),
      env_new_page = (\<lambda>w. Inr Blank),
      env_close = (\<lambda>w. None),
      env_stop_releases = True,
      env_goto = (\<lambda>u w. if u = ''http://localhost:3000/admin/login'' then Inr LoginPage
                         else Inl NavigationError),
      env_fill = (\<lambda>l v w. if w = LoginPage \<and> (l = ByLabel ''Email Address'' \<or> l = ByLabel ''Password'')
                           then Inr w else Inl LocatorError),
      env_click = demo_click has_item,
      env_url = demo_url dash,
      env_visible = (\<lambda>l w. w = ProfilePage \<and> l = ByRole ''heading'' ''My Profile''),
      env_tick = (\<lambda>w. w),
      env_polls = 2,
      env_capture = (\<lambda>full w. Inr (if full then ''full-page'' else ''viewport''))\<rparr>"

definition good_env :: "demo_page browser_env" where
  "good_env = demo_env ''http://localhost:3000/dashboard'' True"

definition broken_env :: "demo_page browser_env" where
  "broken_env = demo_env ''http://localhost:3000/dashboard'' False"

text \<open>Variants: a library whose driver, when stopped, leaves the browsers alone; a host
  on which the browser does not start; a browser whose close raises.\<close>

definition leaky_env :: "demo_page browser_env" where
  "leaky_env = broken_env\<lparr>env_stop_releases := False\<rparr>"

definition no_browser_env :: "demo_page browser_env" where
  "no_browser_env = good_env\<lparr>env_launch := (\<lambda>h. Some BrowserError)\<rparr>"

definition close_fails_env :: "demo_page browser_env" where
  "close_fails_env = good_env\<lparr>env_close := (\<lambda>w. Some BrowserError)\<rparr>"

definition boot :: "string \<Rightarrow> demo_page process" where
  "boot dir =
     \<lparr>page_world = Blank, files = Map.empty, cwd = dir, argv = [''verify_profile_page.py''],
      environ = Map.empty, driver_running = False, browsers = 0, pages = 0, trace = []\<rparr>"


text \<open>
  An application that keeps state between pages: it remembers that the administrator has
  signed in, and while it does, a further sign-in from a fresh page is refused and stays
  on the login page. Its state is the page shown and that memory.
\<close>

definition sticky_click ::
  "locator \<Rightarrow> demo_page \<times> bool \<Rightarrow> error + demo_page \<times> bool" where
  "sticky_click l w =
     (case w of (p, signed_in) \<Rightarrow>
        if p = LoginPage \<and> l = ByRole ''button'' ''Sign In''
        then (if signed_in then Inr (LoginPage, True) else Inr (DashboardPage, True))
        else (case demo_click True l p of Inl e \<Rightarrow> Inl e | Inr p' \<Rightarrow> Inr (p', signed_in)))"

definition sticky_env :: "(demo_page \<times> bool) browser_env" where
  "sticky_env =
     \<lparr>env_launch = (\<lambda>h. None),
      env_new_page = (\<lambda>w. Inr (Blank, snd w)),
      env_close = (\<lambda>w. None),
      env_stop_releases = True,
      env_goto = (\<lambda>u w. if u = ''http://localhost:3000/admin/login'' then Inr (LoginPage, snd w)
                         else Inl NavigationError),
      env_fill = (\<lambda>l v w. if fst w = LoginPage
                               \<and> (l = ByLabel ''Email Address'' \<or> l = ByLabel ''Password'')
                           then Inr w else Inl LocatorError),
      env_click = sticky_click,
      env_url = (\<lambda>w. demo_url ''http://localhost:3000/dashboard'' (fst w)),
      env_visible = (\<lambda>l w. fst w = ProfilePage \<and> l = ByRole ''heading'' ''My Profile''),
      env_tick = (\<lambda>w. w),
      env_polls = 2,
      env_capture = (\<lambda>full w. Inr (if full then ''full-page'' else ''viewport''))\<rparr>"

definition sticky_boot :: "(demo_page \<times> bool) process" where
  "sticky_boot =
     \<lparr>page_world = (Blank, False), files = Map.empty, cwd = ''/repo'',
      argv = [''verify_profile_page.py''], environ = Map.empty, driver_running = False,
      browsers = 0, pages = 0, trace = []\<rparr>"

section \<open>Properties of the patterns\<close>

lemma match_lits: "match_here (lits l) s \<longleftrightarrow> (\<exists>t. s = l @ t)"
proof (induction l arbitrary: s)
  case Nil
  then show ?case by (simp add: lits_def)
next
  case (Cons c l)
  then have ih: "\<And>s. match_here (lits l) s \<longleftrightarrow> (\<exists>t. s = l @ t)" .
  show ?case
  proof (cases s)
    case Nil
    then show ?thesis by (simp add: lits_def)
  next
    case (Cons x xs)
    have "match_here (lits (c # l)) (x # xs) \<longleftrightarrow> x = c \<and> match_here (lits l) xs"
      by (simp add: lits_def)
    with ih [of xs] Cons show ?thesis by auto
  qed
qed

lemma match_many_dot: "match_here (Many Dot # lits l) s \<longleftrightarrow> (\<exists>p t. s = p @ l @ t \<and> CHR 0x0A \<notin> set p)"
proof (induction s)
  case Nil
  then show ?case by (auto simp: match_lits)
next
  case (Cons x xs)
  show ?case
  proof
    assume "match_here (Many Dot # lits l) (x # xs)"
    then consider "x \<noteq> CHR 0x0A" "match_here (Many Dot # lits l) xs" | "match_here (lits l) (x # xs)" by auto
    then show "\<exists>p t. x # xs = p @ l @ t \<and> CHR 0x0A \<notin> set p"
    proof cases
      case 1
      then obtain p t where "xs = p @ l @ t" "CHR 0x0A \<notin> set p" using Cons.IH by blast
      then have "x # xs = (x # p) @ l @ t \<and> CHR 0x0A \<notin> set (x # p)" using 1 by simp
      then show ?thesis by blast
    next
      case 2
      then obtain t where "x # xs = [] @ l @ t" by (auto simp: match_lits)
      then show ?thesis by (metis empty_iff list.set(1))
    qed
  next
    assume "\<exists>p t. x # xs = p @ l @ t \<and> CHR 0x0A \<notin> set p"
    then obtain p t where pt: "x # xs = p @ l @ t" "CHR 0x0A \<notin> set p" by blast
    show "match_here (Many Dot # lits l) (x # xs)"
    proof (cases p)
      case Nil
      then have "match_here (lits l) (x # xs)" using pt by (auto simp: match_lits)
      then show ?thesis by simp
    next
      case (Cons y ys)
      then have "xs = ys @ l @ t" "CHR 0x0A \<notin> set ys" "x \<noteq> CHR 0x0A" using pt by auto
      then have "match_here (Many Dot # lits l) xs" using Cons.IH by blast
      then show ?thesis using \<open>x \<noteq> CHR 0x0A\<close> by simp
    qed
  qed
qed

lemma search_many_dot: "re_search (Many Dot # lits l) s \<longleftrightarrow> (\<exists>p t. s = p @ l @ t)"
proof (induction s)
  case Nil
  then show ?case by (auto simp: match_lits)
next
  case (Cons x xs)
  show ?case
  proof
    assume "re_search (Many Dot # lits l) (x # xs)"
    then consider "match_here (Many Dot # lits l) (x # xs)" | "re_search (Many Dot # lits l) xs" by auto
    then show "\<exists>p t. x # xs = p @ l @ t"
    proof cases
      case 1 then show ?thesis using match_many_dot by blast
    next
      case 2
      then obtain p t where "xs = p @ l @ t" using Cons.IH by blast
      then have "x # xs = (x # p) @ l @ t" by simp
      then show ?thesis by blast
    qed
  next
    assume "\<exists>p t. x # xs = p @ l @ t"
    then obtain p t where pt: "x # xs = p @ l @ t" by blast
    show "re_search (Many Dot # lits l) (x # xs)"
    proof (cases p)
      case Nil
      then have "x # xs = [] @ l @ t \<and> CHR 0x0A \<notin> set []" using pt by simp
      then have "match_here (Many Dot # lits l) (x # xs)" using match_many_dot by blast
      then show ?thesis by simp
    next
      case (Cons y ys)
      then have "xs = ys @ l @ t" using pt by simp
      then have "re_search (Many Dot # lits l) xs" using Cons.IH by blast
      then show ?thesis by simp
    qed
  qed
qed

lemma poll_hit: "fst (poll ok tick n w) \<longleftrightarrow> (\<exists>k\<le>n. ok ((tick ^^ k) w))"
proof (induction n arbitrary: w)
  case 0
  then show ?case by simp
next
  case (Suc n)
  show ?case
  proof (cases "ok w")
    case True
    then have "ok ((tick ^^ 0) w)" by simp
    then have "\<exists>k\<le>Suc n. ok ((tick ^^ k) w)" by blast
    with True show ?thesis by simp
  next
    case False
    have "(\<exists>k\<le>n. ok ((tick ^^ k) (tick w))) \<longleftrightarrow> (\<exists>k\<le>Suc n. ok ((tick ^^ k) w))"
    proof
      assume "\<exists>k\<le>n. ok ((tick ^^ k) (tick w))"
      then obtain k where "k \<le> n" "ok ((tick ^^ k) (tick w))" by blast
      then have "Suc k \<le> Suc n" "ok ((tick ^^ Suc k) w)" by (simp_all add: funpow_swap1)
      then show "\<exists>k\<le>Suc n. ok ((tick ^^ k) w)" by blast
    next
      assume "\<exists>k\<le>Suc n. ok ((tick ^^ k) w)"
      then obtain k where k: "k \<le> Suc n" "ok ((tick ^^ k) w)" by blast
      with False obtain j where "k = Suc j" by (cases k) auto
      with k have "j \<le> n" "ok ((tick ^^ j) (tick w))" by (simp_all add: funpow_swap1)
      then show "\<exists>k\<le>n. ok ((tick ^^ k) (tick w))" by blast
    qed
    with False Suc.IH [of "tick w"] show ?thesis by simp
  qed
qed

lemma expect_url_ok:
  "(fst (expect_to_have_url env pat s) = Inr ()) =
     (\<exists>k\<le>env_polls env. re_search pat (env_url env ((env_tick env ^^ k) (page_world s))))"
proof -
  have "(fst (expect_to_have_url env pat s) = Inr ()) =
      fst (poll (\<lambda>w. re_search pat (env_url env w)) (env_tick env) (env_polls env) (page_world s))"
    by (simp add: expect_to_have_url_def record_call_def Let_def split: prod.splits)
  then show ?thesis by (simp add: poll_hit)
qed

section \<open>Properties of the calls and of sequences of calls\<close>

lemmas call_defs = page_goto_def locator_fill_def locator_click_def expect_to_have_url_def
  expect_to_be_visible_def page_screenshot_def chromium_launch_def browser_new_page_def
  browser_close_def playwright_enter_def playwright_exit_def record_call_def

lemma perform_trace:
  "trace (snd (perform env c s)) =
     trace s @ [(c, browsers (snd (perform env c s)), pages (snd (perform env c s)))]"
  by (cases c) (simp_all add: call_defs Let_def split: sum.splits prod.splits option.splits)

lemma perform_calls: "calls (snd (perform env c s)) = calls s @ [c]"
  using perform_trace [of env c s] by (simp add: calls_def)

lemma perform_page_frame:
  assumes "page_call c"
  shows "browsers (snd (perform env c s)) = browsers s"
    and "pages (snd (perform env c s)) = pages s"
    and "driver_running (snd (perform env c s)) = driver_running s"
    and "cwd (snd (perform env c s)) = cwd s"
  using assms
  by (cases c; simp add: call_defs page_call_def Let_def split: sum.splits prod.splits option.splits)+

lemma perform_files:
  assumes "\<forall>p f. c \<noteq> Screenshot p f"
  shows "files (snd (perform env c s)) = files s"
  using assms
  by (cases c; simp add: call_defs Let_def split: sum.splits prod.splits option.splits)

lemma run_seq_append:
  "run_seq env (xs @ ys) s =
     (case run_seq env xs s of (Inl e, s') \<Rightarrow> (Inl e, s') | (Inr u, s') \<Rightarrow> run_seq env ys s')"
  by (induction xs arbitrary: s) (auto split: prod.splits sum.splits)

lemma run_seq_fail_at:
  assumes "run_seq env pre s = (Inr (), s1)" and "perform env c s1 = (Inl e, s2)"
  shows "run_seq env (pre @ c # post) s = (Inl e, s2)"
  using assms by (simp add: run_seq_append)

lemma run_seq_calls_ok:
  "run_seq env cs s = (Inr (), s') \<Longrightarrow> calls s' = calls s @ cs"
proof (induction cs arbitrary: s)
  case Nil
  then show ?case by simp
next
  case (Cons c cs)
  obtain r s1 where p: "perform env c s = (r, s1)" by (cases "perform env c s")
  with Cons.prems obtain u where r: "r = Inr u" and rest: "run_seq env cs s1 = (Inr (), s')"
    by (cases r) auto
  have "calls s1 = calls s @ [c]" using perform_calls [of env c s] p by simp
  with Cons.IH [OF rest] show ?case by simp
qed

lemma run_seq_calls_prefix:
  "\<exists>k\<le>length cs. calls (snd (run_seq env cs s)) = calls s @ take k cs"
proof (induction cs arbitrary: s)
  case Nil
  then show ?case by simp
next
  case (Cons c cs)
  obtain r s1 where p: "perform env c s = (r, s1)" by (cases "perform env c s")
  have c1: "calls s1 = calls s @ [c]" using perform_calls [of env c s] p by simp
  show ?case
  proof (cases r)
    case (Inl e)
    then have "calls (snd (run_seq env (c # cs) s)) = calls s @ take 1 (c # cs)"
      using p c1 by simp
    then show ?thesis by (metis One_nat_def Suc_leI length_greater_0_conv list.distinct(1))
  next
    case (Inr u)
    from Cons.IH [of s1] obtain k where k: "k \<le> length cs"
      "calls (snd (run_seq env cs s1)) = calls s1 @ take k cs" by blast
    then have "calls (snd (run_seq env (c # cs) s)) = calls s @ take (Suc k) (c # cs)"
      using p Inr c1 by simp
    moreover have "Suc k \<le> length (c # cs)" using k by simp
    ultimately show ?thesis by blast
  qed
qed

lemma verify_is_run_seq: "verify_profile_page env s = run_seq env script_calls s"
  by (simp add: verify_profile_page_def script_calls_def then_do_def get_by_label_def
      get_by_role_def split: prod.splits sum.splits)

lemma script_page_calls: "\<forall>c\<in>set script_calls. page_call c"
  by (simp add: script_calls_def page_call_def)

lemma run_seq_page_frame:
  assumes "\<forall>c\<in>set cs. page_call c"
  shows "browsers (snd (run_seq env cs s)) = browsers s
       \<and> pages (snd (run_seq env cs s)) = pages s
       \<and> driver_running (snd (run_seq env cs s)) = driver_running s
       \<and> cwd (snd (run_seq env cs s)) = cwd s"
  using assms
proof (induction cs arbitrary: s)
  case Nil
  then show ?case by simp
next
  case (Cons c cs)
  obtain r s1 where p: "perform env c s = (r, s1)" by (cases "perform env c s")
  have pc: "page_call c" using Cons.prems by simp
  have f: "browsers s1 = browsers s" "pages s1 = pages s"
    "driver_running s1 = driver_running s" "cwd s1 = cwd s"
    using perform_page_frame [OF pc, of env s] p by simp_all
  show ?case
  proof (cases r)
    case (Inl e)
    with p f show ?thesis by simp
  next
    case (Inr u)
    have "\<forall>c\<in>set cs. page_call c" using Cons.prems by simp
    from Cons.IH [OF this, of s1] p Inr f show ?thesis by simp
  qed
qed

lemma run_seq_files:
  assumes "\<forall>c\<in>set cs. \<forall>p f. c \<noteq> Screenshot p f"
  shows "files (snd (run_seq env cs s)) = files s"
  using assms
proof (induction cs arbitrary: s)
  case Nil
  then show ?case by simp
next
  case (Cons c cs)
  obtain r s1 where p: "perform env c s = (r, s1)" by (cases "perform env c s")
  have "\<forall>p f. c \<noteq> Screenshot p f" using Cons.prems by simp
  then have f: "files s1 = files s" using perform_files [of c env s] p by simp
  show ?case
  proof (cases r)
    case (Inl e)
    with p f show ?thesis by simp
  next
    case (Inr u)
    have "\<forall>c\<in>set cs. \<forall>p f. c \<noteq> Screenshot p f" using Cons.prems by simp
    from Cons.IH [OF this, of s1] p Inr f show ?thesis by simp
  qed
qed

lemma run_seq_trace:
  assumes "\<forall>c\<in>set cs. page_call c" and "cs \<noteq> []"
  shows "\<exists>k. 1 \<le> k \<and> k \<le> length cs
           \<and> (fst (run_seq env cs s) = Inr () \<longrightarrow> k = length cs)
           \<and> trace (snd (run_seq env cs s)) =
               trace s @ map (\<lambda>c. (c, browsers s, pages s)) (take k cs)"
  using assms
proof (induction cs arbitrary: s)
  case Nil
  then show ?case by simp
next
  case (Cons c cs)
  obtain r s1 where p: "perform env c s = (r, s1)" by (cases "perform env c s")
  have pc: "page_call c" using Cons.prems by simp
  have f: "browsers s1 = browsers s" "pages s1 = pages s"
    using perform_page_frame [OF pc, of env s] p by simp_all
  have t1: "trace s1 = trace s @ [(c, browsers s, pages s)]"
    using perform_trace [of env c s] p f by simp
  show ?case
  proof (cases r)
    case (Inl e)
    have "(1::nat) \<le> 1 \<and> 1 \<le> length (c # cs)
        \<and> (fst (run_seq env (c # cs) s) = Inr () \<longrightarrow> 1 = length (c # cs))
        \<and> trace (snd (run_seq env (c # cs) s)) =
            trace s @ map (\<lambda>c. (c, browsers s, pages s)) (take 1 (c # cs))"
      using p Inl t1 by simp
    then show ?thesis by blast
  next
    case (Inr u)
    show ?thesis
    proof (cases "cs = []")
      case True
      have "(1::nat) \<le> 1 \<and> 1 \<le> length (c # cs)
        \<and> (fst (run_seq env (c # cs) s) = Inr () \<longrightarrow> 1 = length (c # cs))
        \<and> trace (snd (run_seq env (c # cs) s)) =
            trace s @ map (\<lambda>c. (c, browsers s, pages s)) (take 1 (c # cs))"
        using p Inr t1 True by simp
      then show ?thesis by blast
    next
      case False
      have "\<forall>c\<in>set cs. page_call c" using Cons.prems by simp
      from Cons.IH [OF this False, of s1] obtain k where k: "1 \<le> k" "k \<le> length cs"
        "fst (run_seq env cs s1) = Inr () \<longrightarrow> k = length cs"
        "trace (snd (run_seq env cs s1)) = trace s1 @ map (\<lambda>c. (c, browsers s1, pages s1)) (take k cs)"
        by blast
      have "1 \<le> Suc k \<and> Suc k \<le> length (c # cs)
        \<and> (fst (run_seq env (c # cs) s) = Inr () \<longrightarrow> Suc k = length (c # cs))
        \<and> trace (snd (run_seq env (c # cs) s)) =
            trace s @ map (\<lambda>c. (c, browsers s, pages s)) (take (Suc k) (c # cs))"
        using p Inr t1 k f by simp
      then show ?thesis by blast
    qed
  qed
qed

lemmas eval_defs = main_def with_sync_playwright_def then_do_def verify_profile_page_def
  call_defs get_by_label_def get_by_role_def demo_env_def good_env_def broken_env_def
  leaky_env_def no_browser_env_def close_fails_env_def sticky_env_def sticky_click_def
  sticky_boot_def demo_url_def demo_click_def boot_def dashboard_re_def profile_re_def lits_def
  numeral_2_eq_2 full_page_default_def resolve_def launched_def reaches_script_def
  body_calls_def script_calls_def run_trace_def run_calls_def calls_def exit_status_def Let_def

lemma run_seq_fail_at':
  assumes "fst (run_seq env pre s) = Inr ()"
    and "fst (perform env c (snd (run_seq env pre s))) = Inl e"
  shows "run_seq env (pre @ c # post) s = (Inl e, snd (perform env c (snd (run_seq env pre s))))"
proof -
  have a: "run_seq env pre s = (Inr (), snd (run_seq env pre s))"
    using assms(1) by (simp add: prod_eq_iff)
  have b: "perform env c (snd (run_seq env pre s)) =
      (Inl e, snd (perform env c (snd (run_seq env pre s))))"
    using assms(2) by (simp add: prod_eq_iff)
  show ?thesis by (rule run_seq_fail_at [OF a b])
qed

lemma run_seq_calls_fail:
  assumes "fst (run_seq env pre s) = Inr ()"
  shows "calls (snd (perform env c (snd (run_seq env pre s)))) = calls s @ pre @ [c]"
proof -
  have a: "run_seq env pre s = (Inr (), snd (run_seq env pre s))"
    using assms(1) by (simp add: prod_eq_iff)
  show ?thesis using run_seq_calls_ok [OF a] by (simp add: perform_calls)
qed

subsection \<open>The entry point, path by path\<close>

lemma main_unfold:
  "main env s =
     (case run_seq env body_calls (playwright_enter s) of (r, s1) \<Rightarrow> (r, playwright_exit env s1))"
  by (simp add: main_def with_sync_playwright_def then_do_def body_calls_def verify_is_run_seq
      run_seq_append split: prod.splits sum.splits)

lemma main_fst: "fst (main env s) = fst (run_seq env body_calls (playwright_enter s))"
  by (simp add: main_unfold split: prod.splits)

lemma main_snd:
  "snd (main env s) = playwright_exit env (snd (run_seq env body_calls (playwright_enter s)))"
  by (simp add: main_unfold split: prod.splits)

lemma body_reaches:
  assumes "reaches_script env s"
  shows "run_seq env body_calls (playwright_enter s) =
           run_seq env (script_calls @ [CloseBrowser]) (launched env s)"
  using assms
  by (auto simp: body_calls_def reaches_script_def launched_def call_defs
      split: sum.splits option.splits)

lemma launched_fields:
  assumes "reaches_script env s"
  shows "trace (launched env s) = trace s @ [(EnterPlaywright, browsers s, pages s),
       (Launch True, Suc (browsers s), pages s), (NewPage, Suc (browsers s), Suc (pages s))]"
    and "browsers (launched env s) = Suc (browsers s)"
    and "pages (launched env s) = Suc (pages s)"
    and "files (launched env s) = files s"
    and "cwd (launched env s) = cwd s"
    and "env_new_page env (page_world s) = Inr (page_world (launched env s))"
  using assms
  by (auto simp: reaches_script_def launched_def call_defs split: sum.splits option.splits)

lemma body_not_reaches:
  assumes "\<not> reaches_script env s"
  shows "\<exists>e. fst (run_seq env body_calls (playwright_enter s)) = Inl e"
    and "files (snd (run_seq env body_calls (playwright_enter s))) = files s"
    and "trace (snd (run_seq env body_calls (playwright_enter s))) =
           trace s @ (EnterPlaywright, browsers s, pages s)
             # (if env_launch env True = None
                then [(Launch True, Suc (browsers s), pages s), (NewPage, Suc (browsers s), pages s)]
                else [(Launch True, browsers s, pages s)])"
    and "browsers (snd (run_seq env body_calls (playwright_enter s))) =
           (if env_launch env True = None then Suc (browsers s) else browsers s)"
    and "pages (snd (run_seq env body_calls (playwright_enter s))) = pages s"
  using assms
  by (auto simp: body_calls_def reaches_script_def call_defs split: sum.splits option.splits)

lemma exit_fields:
  "trace (playwright_exit env x) =
     trace x @ [(ExitPlaywright, browsers (playwright_exit env x), pages (playwright_exit env x))]"
  "files (playwright_exit env x) = files x"
  "\<not> driver_running (playwright_exit env x)"
  "browsers (playwright_exit env x) = (if env_stop_releases env then 0 else browsers x)"
  "pages (playwright_exit env x) = (if env_stop_releases env then 0 else pages x)"
  by (simp_all add: playwright_exit_def record_call_def)

lemma close_fields:
  "trace (snd (browser_close env x)) =
     trace x @ [(CloseBrowser, browsers (snd (browser_close env x)), pages (snd (browser_close env x)))]"
  "files (snd (browser_close env x)) = files x"
  "browsers (snd (browser_close env x)) =
     (if fst (browser_close env x) = Inr () then browsers x - 1 else browsers x)"
  "pages (snd (browser_close env x)) =
     (if fst (browser_close env x) = Inr () then 0 else pages x)"
  by (simp_all add: browser_close_def record_call_def split: option.splits)

lemma main_reaches:
  assumes "reaches_script env s"
  shows "main env s =
     (case run_seq env script_calls (launched env s) of
        (Inl e, s1) \<Rightarrow> (Inl e, playwright_exit env s1)
      | (Inr u, s1) \<Rightarrow>
          (fst (browser_close env s1), playwright_exit env (snd (browser_close env s1))))"
  by (simp add: main_unfold body_reaches [OF assms] run_seq_append
      split: prod.splits sum.splits)

lemma main_trace_grows: "trace (snd (main env s)) = trace s @ run_trace env s"
proof -
  have "\<exists>xs. trace (snd (main env s)) = trace s @ xs"
  proof (cases "reaches_script env s")
    case False
    from body_not_reaches(3) [OF False] show ?thesis
      by (simp add: main_snd exit_fields)
  next
    case True
    have ne: "script_calls \<noteq> []" by (simp add: script_calls_def)
    from run_seq_trace [OF script_page_calls ne, of env "launched env s"]
    obtain k where
      "trace (snd (run_seq env script_calls (launched env s))) =
       trace (launched env s)
         @ map (\<lambda>c. (c, browsers (launched env s), pages (launched env s))) (take k script_calls)"
      by blast
    then show ?thesis
      by (cases "run_seq env script_calls (launched env s)")
        (auto simp: main_reaches [OF True] launched_fields [OF True] exit_fields close_fields
          split: sum.splits)
  qed
  then show ?thesis by (auto simp: run_trace_def)
qed

lemma main_trace_not_reaches:
  assumes "\<not> reaches_script env s"
  shows "run_trace env s =
           (EnterPlaywright, browsers s, pages s)
             # (if env_launch env True = None
                then [(Launch True, Suc (browsers s), pages s), (NewPage, Suc (browsers s), pages s)]
                else [(Launch True, browsers s, pages s)])
             @ [(ExitPlaywright, browsers (snd (main env s)), pages (snd (main env s)))]"
  using body_not_reaches(3) [OF assms]
  by (simp add: run_trace_def main_snd exit_fields)

lemma main_trace_reaches:
  assumes "reaches_script env s"
  shows "\<exists>k. 1 \<le> k \<and> k \<le> length script_calls
      \<and> (fst (run_seq env script_calls (launched env s)) = Inr () \<longrightarrow> k = length script_calls)
      \<and> run_trace env s =
          [(EnterPlaywright, browsers s, pages s), (Launch True, Suc (browsers s), pages s),
           (NewPage, Suc (browsers s), Suc (pages s))]
          @ map (\<lambda>c. (c, Suc (browsers s), Suc (pages s))) (take k script_calls)
          @ (if fst (run_seq env script_calls (launched env s)) = Inr ()
             then [(CloseBrowser,
                    browsers (snd (browser_close env (snd (run_seq env script_calls (launched env s))))),
                    pages (snd (browser_close env (snd (run_seq env script_calls (launched env s))))))]
             else [])
          @ [(ExitPlaywright, browsers (snd (main env s)), pages (snd (main env s)))]"
proof -
  let ?S = "launched env s"
  have ne: "script_calls \<noteq> []" by (simp add: script_calls_def)
  from run_seq_trace [OF script_page_calls ne, of env ?S]
  obtain k where k: "1 \<le> k" "k \<le> length script_calls"
    "fst (run_seq env script_calls ?S) = Inr () \<longrightarrow> k = length script_calls"
    "trace (snd (run_seq env script_calls ?S)) =
       trace ?S @ map (\<lambda>c. (c, browsers ?S, pages ?S)) (take k script_calls)"
    by blast
  obtain r s1 where rs: "run_seq env script_calls ?S = (r, s1)"
    by (cases "run_seq env script_calls ?S")
  have "run_trace env s =
          [(EnterPlaywright, browsers s, pages s), (Launch True, Suc (browsers s), pages s),
           (NewPage, Suc (browsers s), Suc (pages s))]
          @ map (\<lambda>c. (c, Suc (browsers s), Suc (pages s))) (take k script_calls)
          @ (if fst (run_seq env script_calls ?S) = Inr ()
             then [(CloseBrowser,
                    browsers (snd (browser_close env (snd (run_seq env script_calls ?S)))),
                    pages (snd (browser_close env (snd (run_seq env script_calls ?S)))))]
             else [])
          @ [(ExitPlaywright, browsers (snd (main env s)), pages (snd (main env s)))]"
    using k(4) rs
    by (cases r)
      (simp_all add: run_trace_def main_reaches [OF assms] launched_fields [OF assms]
        exit_fields(1) close_fields(1))
  with k(1,2,3) show ?thesis by blast
qed


lemma main_run_calls_reaches:
  assumes "reaches_script env s"
  shows "\<exists>k. 1 \<le> k \<and> k \<le> length script_calls
      \<and> (fst (run_seq env script_calls (launched env s)) = Inr () \<longrightarrow> k = length script_calls)
      \<and> run_calls env s =
          [EnterPlaywright, Launch True, NewPage] @ take k script_calls
          @ (if fst (run_seq env script_calls (launched env s)) = Inr () then [CloseBrowser] else [])
          @ [ExitPlaywright]"
proof -
  from main_trace_reaches [OF assms] obtain k where k: "1 \<le> k" "k \<le> length script_calls"
    "fst (run_seq env script_calls (launched env s)) = Inr () \<longrightarrow> k = length script_calls"
    "run_trace env s =
          [(EnterPlaywright, browsers s, pages s), (Launch True, Suc (browsers s), pages s),
           (NewPage, Suc (browsers s), Suc (pages s))]
          @ map (\<lambda>c. (c, Suc (browsers s), Suc (pages s))) (take k script_calls)
          @ (if fst (run_seq env script_calls (launched env s)) = Inr ()
             then [(CloseBrowser,
                    browsers (snd (browser_close env (snd (run_seq env script_calls (launched env s))))),
                    pages (snd (browser_close env (snd (run_seq env script_calls (launched env s))))))]
             else [])
          @ [(ExitPlaywright, browsers (snd (main env s)), pages (snd (main env s)))]"
    by blast
  have "run_calls env s =
          [EnterPlaywright, Launch True, NewPage] @ take k script_calls
          @ (if fst (run_seq env script_calls (launched env s)) = Inr () then [CloseBrowser] else [])
          @ [ExitPlaywright]"
    by (simp add: run_calls_def k(4) comp_def)
  with k(1,2,3) show ?thesis by blast
qed

lemma main_run_calls_not_reaches:
  assumes "\<not> reaches_script env s"
  shows "run_calls env s =
           [EnterPlaywright, Launch True]
           @ (if env_launch env True = None then [NewPage] else []) @ [ExitPlaywright]"
  by (simp add: run_calls_def main_trace_not_reaches [OF assms])

lemma main_ok_iff:
  "(fst (main env s) = Inr ()) =
     (reaches_script env s
      \<and> fst (run_seq env script_calls (launched env s)) = Inr ()
      \<and> env_close env (page_world (snd (run_seq env script_calls (launched env s)))) = None)"
proof (cases "reaches_script env s")
  case False
  from body_not_reaches(1) [OF False] show ?thesis using False by (auto simp: main_fst)
next
  case True
  show ?thesis
    by (cases "run_seq env script_calls (launched env s)")
      (auto simp: main_reaches [OF True] True browser_close_def split: sum.splits option.splits)
qed

section \<open>The claims\<close>

subsection \<open>C3: which URLs the two URL assertions accept\<close>

text \<open>
  C3, as the code has it. The assertion after the login succeeds exactly when, at one of
  the polls that fit the timeout, the URL of the page contains \<^verbatim>\<open>/dashboard\<close>; the
  assertion after the menu navigation succeeds exactly when it contains \<^verbatim>\<open>/profile\<close>.
  Anything may follow the suffix: the accepted URLs are those that contain it.
\<close>

theorem url_assertions_accept_containing:
  "(fst (expect_to_have_url env dashboard_re s) = Inr ()) =
     (\<exists>k\<le>env_polls env. \<exists>p t.
        env_url env ((env_tick env ^^ k) (page_world s)) = p @ ''/dashboard'' @ t)
   \<and> (fst (expect_to_have_url env profile_re s) = Inr ()) =
     (\<exists>k\<le>env_polls env. \<exists>p t.
        env_url env ((env_tick env ^^ k) (page_world s)) = p @ ''/profile'' @ t)"
  by (simp add: expect_url_ok dashboard_re_def profile_re_def search_many_dot)

text \<open>The theorem at the dashboard of the sample application.\<close>

theorem url_assertions_accept_containing_witness:
  "\<exists>k\<le>env_polls good_env. \<exists>p t.
     env_url good_env ((env_tick good_env ^^ k) (page_world ((boot ''/repo'')\<lparr>page_world := DashboardPage\<rparr>)))
       = p @ ''/dashboard'' @ t"
proof -
  have "fst (expect_to_have_url good_env dashboard_re ((boot ''/repo'')\<lparr>page_world := DashboardPage\<rparr>)) = Inr ()"
    by (simp add: expect_to_have_url_def record_call_def good_env_def demo_env_def demo_url_def
        boot_def dashboard_re_def lits_def numeral_2_eq_2)
  then show ?thesis
    using url_assertions_accept_containing
      [of good_env "(boot ''/repo'')\<lparr>page_world := DashboardPage\<rparr>"] by blast
qed

text \<open>
  C3 as stated fails: a URL that goes on after \<^verbatim>\<open>/dashboard\<close> does not end in it and is
  accepted, by a search for the pattern and by a match from the start alike; the same
  holds for \<^verbatim>\<open>/profile\<close>.
\<close>

theorem url_assertion_suffix_counterexample:
  "fst (expect_to_have_url (demo_env ''http://localhost:3000/dashboard/settings'' True) dashboard_re
          ((boot ''/repo'')\<lparr>page_world := DashboardPage\<rparr>)) = Inr ()
   \<and> \<not> suffix ''/dashboard''
          (env_url (demo_env ''http://localhost:3000/dashboard/settings'' True) DashboardPage)
   \<and> match_here dashboard_re ''http://localhost:3000/dashboard/settings''
   \<and> re_search profile_re ''http://localhost:3000/profile/edit''
   \<and> \<not> suffix ''/profile'' ''http://localhost:3000/profile/edit''"
  by (simp add: expect_to_have_url_def record_call_def demo_env_def demo_url_def
        boot_def dashboard_re_def profile_re_def lits_def numeral_2_eq_2 suffix_def)

subsection \<open>C4: the operations run in their fixed order\<close>

text \<open>
  C4. The script is the fixed list of calls run in order: the ten calls of the nine
  operations. When the calls before some call succeed and that call fails, the script
  ends there with that call's error, in the state that call left: no later call is made.
  The calls made are always a prefix of the list, and the whole list when the script
  succeeds.
\<close>

theorem verify_runs_script_in_order:
  "verify_profile_page env s = run_seq env script_calls s
   \<and> length script_calls = 10
   \<and> (\<forall>pre c post e.
        script_calls = pre @ c # post \<and> fst (run_seq env pre s) = Inr ()
          \<and> fst (perform env c (snd (run_seq env pre s))) = Inl e
        \<longrightarrow> verify_profile_page env s = (Inl e, snd (perform env c (snd (run_seq env pre s))))
          \<and> calls (snd (verify_profile_page env s)) = calls s @ pre @ [c])
   \<and> (fst (verify_profile_page env s) = Inr ()
        \<longrightarrow> calls (snd (verify_profile_page env s)) = calls s @ script_calls)
   \<and> (\<exists>k\<le>length script_calls.
        calls (snd (verify_profile_page env s)) = calls s @ take k script_calls)"
proof (intro conjI allI impI)
  show "verify_profile_page env s = run_seq env script_calls s" by (rule verify_is_run_seq)
  show "length script_calls = 10" by (simp add: script_calls_def)
next
  fix pre c post e
  assume h: "script_calls = pre @ c # post \<and> fst (run_seq env pre s) = Inr ()
          \<and> fst (perform env c (snd (run_seq env pre s))) = Inl e"
  then have v: "verify_profile_page env s = (Inl e, snd (perform env c (snd (run_seq env pre s))))"
    using run_seq_fail_at' [of env pre s c e post] by (simp add: verify_is_run_seq)
  then show "verify_profile_page env s = (Inl e, snd (perform env c (snd (run_seq env pre s))))" .
  show "calls (snd (verify_profile_page env s)) = calls s @ pre @ [c]"
    using v h run_seq_calls_fail [of env pre s c] by simp
next
  assume "fst (verify_profile_page env s) = Inr ()"
  then have "run_seq env script_calls s = (Inr (), snd (verify_profile_page env s))"
    by (simp add: verify_is_run_seq prod_eq_iff)
  then show "calls (snd (verify_profile_page env s)) = calls s @ script_calls"
    by (rule run_seq_calls_ok)
next
  show "\<exists>k\<le>length script_calls.
        calls (snd (verify_profile_page env s)) = calls s @ take k script_calls"
    using run_seq_calls_prefix [of script_calls env s] by (simp add: verify_is_run_seq)
qed

text \<open>The theorem on an application whose account menu lacks the Profile item: the
  seventh call fails and is the last call made.\<close>

theorem verify_runs_script_in_order_witness:
  "fst (verify_profile_page broken_env (launched broken_env (boot ''/repo''))) = Inl LocatorError
   \<and> calls (snd (verify_profile_page broken_env (launched broken_env (boot ''/repo'')))) =
       [EnterPlaywright, Launch True, NewPage] @ take 7 script_calls"
proof -
  let ?S = "launched broken_env (boot ''/repo'')"
  let ?pre = "take 6 script_calls"
  let ?c = "Click (ByRole ''menuitem'' ''Profile'')"
  let ?post = "drop 7 script_calls"
  have a: "script_calls = ?pre @ ?c # ?post" by (simp add: script_calls_def)
  have b: "fst (run_seq broken_env ?pre ?S) = Inr ()" by (simp add: eval_defs)
  have c: "fst (perform broken_env ?c (snd (run_seq broken_env ?pre ?S))) = Inl LocatorError"
    by (simp add: eval_defs)
  have d: "calls ?S @ ?pre @ [?c] = [EnterPlaywright, Launch True, NewPage] @ take 7 script_calls"
    by (simp add: eval_defs)
  from verify_runs_script_in_order [of broken_env ?S] a b c
  have r: "verify_profile_page broken_env ?S =
          (Inl LocatorError, snd (perform broken_env ?c (snd (run_seq broken_env ?pre ?S))))"
    and cl: "calls (snd (verify_profile_page broken_env ?S)) = calls ?S @ ?pre @ [?c]"
    by blast+
  have "fst (verify_profile_page broken_env ?S) = Inl LocatorError"
    by (simp only: r fst_conv)
  with cl d show ?thesis by (simp only:)
qed


subsection \<open>C5: errors reach the exit status\<close>




subsection \<open>C6: no screenshot after an earlier failure\<close>

lemma script_butlast_no_screenshot:
  "\<forall>c\<in>set (butlast script_calls). \<forall>p f. c \<noteq> Screenshot p f"
  by (simp add: script_calls_def)

text \<open>
  C6. When the entry point reaches the script and a call before the capture fails (the
  calls before it having succeeded), the run ends with that error, the file system is the
  one the run started with, so the output file keeps its content or stays absent, and the
  run makes no screenshot call: its calls are the three opening calls, the calls up to the
  failing one and the exit of the driver. When the launch or the opening of the page
  fails, the script is not reached, and again no file changes and no screenshot call is
  made.
\<close>

theorem no_screenshot_after_failure:
  "(\<forall>pre c post e.
      reaches_script env s
        \<and> butlast script_calls = pre @ c # post
        \<and> fst (run_seq env pre (launched env s)) = Inr ()
        \<and> fst (perform env c (snd (run_seq env pre (launched env s)))) = Inl e
      \<longrightarrow> fst (main env s) = Inl e
        \<and> files (snd (main env s)) = files s
        \<and> run_calls env s = [EnterPlaywright, Launch True, NewPage] @ pre @ [c, ExitPlaywright]
        \<and> (\<forall>p f. Screenshot p f \<notin> set (run_calls env s)))
   \<and> (\<not> reaches_script env s
      \<longrightarrow> fst (main env s) \<noteq> Inr ()
        \<and> files (snd (main env s)) = files s
        \<and> (\<forall>p f. Screenshot p f \<notin> set (run_calls env s)))"
proof (rule conjI)
  show "\<forall>pre c post e.
      reaches_script env s
        \<and> butlast script_calls = pre @ c # post
        \<and> fst (run_seq env pre (launched env s)) = Inr ()
        \<and> fst (perform env c (snd (run_seq env pre (launched env s)))) = Inl e
      \<longrightarrow> fst (main env s) = Inl e
        \<and> files (snd (main env s)) = files s
        \<and> run_calls env s = [EnterPlaywright, Launch True, NewPage] @ pre @ [c, ExitPlaywright]
        \<and> (\<forall>p f. Screenshot p f \<notin> set (run_calls env s))"
  proof (intro allI impI)
  fix pre c post e
  assume h: "reaches_script env s
        \<and> butlast script_calls = pre @ c # post
        \<and> fst (run_seq env pre (launched env s)) = Inr ()
        \<and> fst (perform env c (snd (run_seq env pre (launched env s)))) = Inl e"
  then have rch: "reaches_script env s" by simp
  let ?S = "launched env s"
  let ?s2 = "snd (perform env c (snd (run_seq env pre ?S)))"
  have sc: "script_calls = pre @ c # (post @ [last script_calls])"
  proof -
    have "script_calls = butlast script_calls @ [last script_calls]"
      by (simp add: script_calls_def)
    with h show ?thesis by simp
  qed
  have run: "run_seq env script_calls ?S = (Inl e, ?s2)"
    using h run_seq_fail_at' [of env pre ?S c e "post @ [last script_calls]"] sc by simp
  have noshot: "\<forall>c'\<in>set (pre @ [c]). \<forall>p f. c' \<noteq> Screenshot p f"
  proof -
    have "set (pre @ [c]) \<subseteq> set (butlast script_calls)" using h by auto
    with script_butlast_no_screenshot show ?thesis by blast
  qed
  have f1: "files (snd (run_seq env pre ?S)) = files ?S"
    using noshot run_seq_files [of pre env ?S] by simp
  have f2: "files ?s2 = files (snd (run_seq env pre ?S))"
    using noshot perform_files [of c env "snd (run_seq env pre ?S)"] by simp
  have m: "main env s = (Inl e, playwright_exit env ?s2)"
    using run by (simp add: main_reaches [OF rch])
  have res: "fst (main env s) = Inl e" using m by simp
  have fl: "files (snd (main env s)) = files s"
    using m f1 f2 by (simp add: exit_fields launched_fields [OF rch])
  have cs2: "calls ?s2 = calls ?S @ pre @ [c]"
    using h run_seq_calls_fail [of env pre ?S c] by simp
  have cl: "calls ?S = calls s @ [EnterPlaywright, Launch True, NewPage]"
    by (simp add: calls_def launched_fields [OF rch])
  have "calls (snd (main env s)) = calls ?s2 @ [ExitPlaywright]"
    using m by (simp add: calls_def exit_fields)
  then have "calls s @ run_calls env s
      = calls s @ [EnterPlaywright, Launch True, NewPage] @ pre @ [c, ExitPlaywright]"
    using main_trace_grows [of env s] cs2 cl by (simp add: calls_def run_calls_def)
  then have rc: "run_calls env s = [EnterPlaywright, Launch True, NewPage] @ pre @ [c, ExitPlaywright]"
    by simp
  have "\<forall>p f. Screenshot p f \<notin> set (run_calls env s)"
    using rc noshot by auto
  with res fl rc show "fst (main env s) = Inl e
        \<and> files (snd (main env s)) = files s
        \<and> run_calls env s = [EnterPlaywright, Launch True, NewPage] @ pre @ [c, ExitPlaywright]
        \<and> (\<forall>p f. Screenshot p f \<notin> set (run_calls env s))" by blast
  qed
next
  show "\<not> reaches_script env s
      \<longrightarrow> fst (main env s) \<noteq> Inr ()
        \<and> files (snd (main env s)) = files s
        \<and> (\<forall>p f. Screenshot p f \<notin> set (run_calls env s))"
  proof (rule impI)
    assume n: "\<not> reaches_script env s"
    from body_not_reaches(1) [OF n] have a: "fst (main env s) \<noteq> Inr ()"
      by (auto simp: main_fst)
    from body_not_reaches(2) [OF n] have b: "files (snd (main env s)) = files s"
      by (simp add: main_snd exit_fields)
    have c: "\<forall>p f. Screenshot p f \<notin> set (run_calls env s)"
      by (simp add: main_run_calls_not_reaches [OF n])
    from a b c show "fst (main env s) \<noteq> Inr ()
        \<and> files (snd (main env s)) = files s
        \<and> (\<forall>p f. Screenshot p f \<notin> set (run_calls env s))" by blast
  qed
qed

text \<open>The theorem on the application whose account menu lacks the Profile item, started
  with an empty file system: the click on the item fails and no file exists afterwards.\<close>

theorem no_screenshot_after_failure_witness:
  "fst (main broken_env (boot ''/repo'')) = Inl LocatorError
   \<and> files (snd (main broken_env (boot ''/repo''))) = Map.empty
   \<and> run_calls broken_env (boot ''/repo'') =
        [EnterPlaywright, Launch True, NewPage] @ take 7 script_calls @ [ExitPlaywright]"
proof -
  let ?S = "launched broken_env (boot ''/repo'')"
  let ?pre = "take 6 script_calls"
  let ?c = "Click (ByRole ''menuitem'' ''Profile'')"
  let ?post = "drop 7 (butlast script_calls)"
  have r0: "reaches_script broken_env (boot ''/repo'')" by (simp add: eval_defs)
  have a: "butlast script_calls = ?pre @ ?c # ?post" by (simp add: script_calls_def)
  have b: "fst (run_seq broken_env ?pre ?S) = Inr ()" by (simp add: eval_defs)
  have c: "fst (perform broken_env ?c (snd (run_seq broken_env ?pre ?S))) = Inl LocatorError"
    by (simp add: eval_defs)
  from no_screenshot_after_failure [of broken_env "boot ''/repo''"] r0 a b c
  have r: "fst (main broken_env (boot ''/repo'')) = Inl LocatorError"
    and f: "files (snd (main broken_env (boot ''/repo''))) = files (boot ''/repo'')"
    and rc: "run_calls broken_env (boot ''/repo'') =
        [EnterPlaywright, Launch True, NewPage] @ ?pre @ [?c, ExitPlaywright]"
    by blast+
  have f0: "files (boot ''/repo'') = Map.empty" by (simp add: boot_def)
  have e: "[EnterPlaywright, Launch True, NewPage] @ ?pre @ [?c, ExitPlaywright] =
      [EnterPlaywright, Launch True, NewPage] @ take 7 script_calls @ [ExitPlaywright]"
    by (simp add: script_calls_def)
  from r f rc f0 e show ?thesis by (simp only:)
qed


lemma filter_take_none:
  assumes "\<forall>c\<in>set cs. \<not> P c"
  shows "filter P (take k cs) = []"
proof -
  have "set (take k cs) \<subseteq> set cs" by (rule set_take_subset)
  with assms have "\<forall>c\<in>set (take k cs). \<not> P c" by blast
  then show ?thesis by (simp add: filter_empty_conv)
qed

lemma main_calls_grow: "calls (snd (main env s)) = calls s @ run_calls env s"
  using main_trace_grows [of env s] by (simp add: calls_def run_calls_def)





subsection \<open>C1: the release of the browser\<close>




subsection \<open>C8: one headless browser, one page\<close>




lemma script_split_last:
  "script_calls = butlast script_calls
     @ [Screenshot ''jules-scratch/verification/profile_page.png'' None]"
  by (simp add: script_calls_def)

lemma butlast_page_calls: "\<forall>c\<in>set (butlast script_calls). page_call c"
  by (simp add: script_calls_def page_call_def)

lemma main_success_files:
  assumes "fst (main env s) = Inr ()"
  shows "fst (run_seq env (butlast script_calls) (launched env s)) = Inr ()
     \<and> (\<exists>img. env_capture env False
                (page_world (snd (run_seq env (butlast script_calls) (launched env s)))) = Inr img
            \<and> files (snd (main env s)) =
                (files s)(resolve (cwd s) ''jules-scratch/verification/profile_page.png'' \<mapsto> img))"
proof -
  let ?S = "launched env s"
  let ?shot = "Screenshot ''jules-scratch/verification/profile_page.png'' None"
  have rch: "reaches_script env s"
    and sok: "fst (run_seq env script_calls ?S) = Inr ()"
    and cok: "env_close env (page_world (snd (run_seq env script_calls ?S))) = None"
    using assms by (simp_all add: main_ok_iff)
  obtain r9 s9 where r9: "run_seq env (butlast script_calls) ?S = (r9, s9)"
    by (cases "run_seq env (butlast script_calls) ?S")
  have ok: "fst (run_seq env (butlast script_calls @ [?shot]) ?S) = Inr ()"
    using sok script_split_last by simp
  have r9ok: "r9 = Inr ()"
    using ok r9 by (cases r9) (simp_all add: run_seq_append)
  obtain r10 s10 where p: "perform env ?shot s9 = (r10, s10)"
    by (cases "perform env ?shot s9")
  have r10ok: "r10 = Inr ()"
    using ok r9 r9ok p by (cases r10) (simp_all add: run_seq_append)
  have whole: "run_seq env script_calls ?S = (Inr (), s10)"
    using r9 r9ok p r10ok script_split_last run_seq_append [of env "butlast script_calls" "[?shot]" ?S]
    by simp
  have fr: "files s9 = files s"
    using run_seq_files [OF script_butlast_no_screenshot, of env ?S] r9
    by (simp add: launched_fields [OF rch])
  have cw: "cwd s9 = cwd s"
    using run_seq_page_frame [OF butlast_page_calls, of env ?S] r9
    by (simp add: launched_fields [OF rch])
  obtain img where cap: "env_capture env False (page_world s9) = Inr img"
    and f10: "files s10 = (files s9)(resolve (cwd s9) ''jules-scratch/verification/profile_page.png'' \<mapsto> img)"
    using p r10ok
    by (auto simp: page_screenshot_def record_call_def full_page_default_def Let_def
        split: sum.splits)
  have "files (snd (main env s)) = files s10"
    using whole by (simp add: main_reaches [OF rch] exit_fields close_fields)
  with cap f10 fr cw r9 r9ok show ?thesis by simp
qed

subsection \<open>C2: the screenshot of a successful run\<close>

text \<open>
  C2, as the code has it. On a successful run the capture step is the call
  \<^verbatim>\<open>page.screenshot(path="jules-scratch/verification/profile_page.png")\<close>, the only
  screenshot call of the run and its last call on the page. It passes no \<^verbatim>\<open>full_page\<close>
  keyword, so the image is the capture of the viewport (the library's default), taken of
  the page as the nine calls before it left it. The run stores it under that path, whatever the file
  held before, and changes no other file.
\<close>

theorem screenshot_written_on_success:
  assumes "fst (main env s) = Inr ()"
  shows "(\<exists>img. env_capture env False
              (page_world (snd (run_seq env (butlast script_calls) (launched env s)))) = Inr img
            \<and> files (snd (main env s)) =
                (files s)(resolve (cwd s) ''jules-scratch/verification/profile_page.png'' \<mapsto> img))
       \<and> run_calls env s =
           [EnterPlaywright, Launch True, NewPage] @ butlast script_calls
           @ [Screenshot ''jules-scratch/verification/profile_page.png'' None,
              CloseBrowser, ExitPlaywright]
       \<and> (\<forall>p f. Screenshot p f \<in> set (run_calls env s)
             \<longrightarrow> p = ''jules-scratch/verification/profile_page.png'' \<and> f = None)"
proof -
  have rch: "reaches_script env s"
    and sok: "fst (run_seq env script_calls (launched env s)) = Inr ()"
    using assms by (simp_all add: main_ok_iff)
  from main_run_calls_reaches [OF rch] sok
  have "run_calls env s = [EnterPlaywright, Launch True, NewPage] @ script_calls
          @ [CloseBrowser, ExitPlaywright]"
    by auto
  then have rc: "run_calls env s =
           [EnterPlaywright, Launch True, NewPage] @ butlast script_calls
           @ [Screenshot ''jules-scratch/verification/profile_page.png'' None,
              CloseBrowser, ExitPlaywright]"
    using script_split_last by simp
  have only: "\<forall>p f. Screenshot p f \<in> set (run_calls env s)
             \<longrightarrow> p = ''jules-scratch/verification/profile_page.png'' \<and> f = None"
    using script_butlast_no_screenshot by (auto simp: rc)
  from main_success_files [OF assms] rc only show ?thesis by blast
qed

text \<open>The theorem on the complete application, started with an older file in place: the
  file holds the capture of the viewport afterwards.\<close>

theorem screenshot_written_on_success_witness:
  "fst (main good_env ((boot ''/repo'')
          \<lparr>files := [''/repo/jules-scratch/verification/profile_page.png'' \<mapsto> ''old'']\<rparr>)) = Inr ()
   \<and> files (snd (main good_env ((boot ''/repo'')
          \<lparr>files := [''/repo/jules-scratch/verification/profile_page.png'' \<mapsto> ''old'']\<rparr>)))
        ''/repo/jules-scratch/verification/profile_page.png'' = Some ''viewport''"
proof -
  let ?s = "(boot ''/repo'')
          \<lparr>files := [''/repo/jules-scratch/verification/profile_page.png'' \<mapsto> ''old'']\<rparr>"
  have ok: "fst (main good_env ?s) = Inr ()" by (simp add: eval_defs)
  have cap: "\<And>w. env_capture good_env False w = Inr ''viewport''"
    by (simp add: good_env_def demo_env_def)
  have res: "resolve (cwd ?s) ''jules-scratch/verification/profile_page.png'' =
      ''/repo/jules-scratch/verification/profile_page.png''"
    by (simp add: resolve_def boot_def)
  from screenshot_written_on_success [OF ok] obtain img where
    c: "env_capture good_env False
       (page_world (snd (run_seq good_env (butlast script_calls) (launched good_env ?s)))) = Inr img"
    and f: "files (snd (main good_env ?s)) =
       (files ?s)(resolve (cwd ?s) ''jules-scratch/verification/profile_page.png'' \<mapsto> img)"
    by blast
  have i: "img = ''viewport''" using c by (simp add: cap)
  have "files (snd (main good_env ?s)) ''/repo/jules-scratch/verification/profile_page.png''
      = Some ''viewport''"
    by (simp only: f res i fun_upd_same)
  with ok show ?thesis by (simp only:) 
qed

text \<open>
  C2 as stated fails. On the complete application the run succeeds and the file holds the
  capture of the viewport, not the full-page capture; the run never asks for the full
  page.
\<close>

theorem screenshot_full_page_counterexample:
  "fst (main good_env (boot ''/repo'')) = Inr ()
   \<and> files (snd (main good_env (boot ''/repo'')))
        ''/repo/jules-scratch/verification/profile_page.png'' = Some ''viewport''
   \<and> env_capture good_env True ProfilePage = Inr ''full-page''
   \<and> Screenshot ''jules-scratch/verification/profile_page.png'' (Some True)
        \<notin> set (run_calls good_env (boot ''/repo''))
   \<and> Screenshot ''jules-scratch/verification/profile_page.png'' None
        \<in> set (run_calls good_env (boot ''/repo''))"
  by (simp add: eval_defs)

subsection \<open>C10: the screenshot path is relative to the working directory\<close>

text \<open>
  C10. The only path the script passes to a screenshot call is the relative string
  \<^verbatim>\<open>jules-scratch/verification/profile_page.png\<close>. The file a successful run adds or
  replaces is the one that path names below the working directory of the process: the
  working directory, a slash unless it ends in one, and the path.
\<close>

theorem screenshot_path_relative_to_cwd:
  "(\<forall>p f. Screenshot p f \<in> set script_calls
        \<longrightarrow> p = ''jules-scratch/verification/profile_page.png'' \<and> hd p \<noteq> CHR ''/'')
   \<and> resolve (cwd s) ''jules-scratch/verification/profile_page.png'' =
        (if cwd s \<noteq> [] \<and> last (cwd s) = CHR ''/''
         then cwd s @ ''jules-scratch/verification/profile_page.png''
         else cwd s @ ''/'' @ ''jules-scratch/verification/profile_page.png'')
   \<and> (fst (main env s) = Inr ()
        \<longrightarrow> dom (files (snd (main env s))) =
              insert (resolve (cwd s) ''jules-scratch/verification/profile_page.png'')
                (dom (files s)))"
proof (intro conjI impI)
  show "\<forall>p f. Screenshot p f \<in> set script_calls
        \<longrightarrow> p = ''jules-scratch/verification/profile_page.png'' \<and> hd p \<noteq> CHR ''/''"
    by (auto simp: script_calls_def)
  show "resolve (cwd s) ''jules-scratch/verification/profile_page.png'' =
        (if cwd s \<noteq> [] \<and> last (cwd s) = CHR ''/''
         then cwd s @ ''jules-scratch/verification/profile_page.png''
         else cwd s @ ''/'' @ ''jules-scratch/verification/profile_page.png'')"
    by (simp add: resolve_def)
next
  assume "fst (main env s) = Inr ()"
  from main_success_files [OF this] obtain img where
    "files (snd (main env s)) =
       (files s)(resolve (cwd s) ''jules-scratch/verification/profile_page.png'' \<mapsto> img)"
    by blast
  then show "dom (files (snd (main env s))) =
      insert (resolve (cwd s) ''jules-scratch/verification/profile_page.png'') (dom (files s))"
    by simp
qed

text \<open>The theorem on two runs of the complete application from different working
  directories: each writes below its own directory.\<close>

theorem screenshot_path_relative_to_cwd_witness:
  "dom (files (snd (main good_env (boot ''/repo'')))) =
     {''/repo/jules-scratch/verification/profile_page.png''}
   \<and> dom (files (snd (main good_env (boot ''/tmp/'')))) =
     {''/tmp/jules-scratch/verification/profile_page.png''}"
proof -
  have ok1: "fst (main good_env (boot ''/repo'')) = Inr ()" by (simp add: eval_defs)
  have ok2: "fst (main good_env (boot ''/tmp/'')) = Inr ()" by (simp add: eval_defs)
  have r1: "resolve (cwd (boot ''/repo'')) ''jules-scratch/verification/profile_page.png'' =
      ''/repo/jules-scratch/verification/profile_page.png''"
    by (simp add: resolve_def boot_def)
  have r2: "resolve (cwd (boot ''/tmp/'')) ''jules-scratch/verification/profile_page.png'' =
      ''/tmp/jules-scratch/verification/profile_page.png''"
    by (simp add: resolve_def boot_def)
  have e: "dom (files (boot ''/repo'')) = {}" "dom (files (boot ''/tmp/'')) = {}"
    by (simp_all add: boot_def)
  from screenshot_path_relative_to_cwd [of "boot ''/repo''" good_env] ok1
  have d1: "dom (files (snd (main good_env (boot ''/repo'')))) =
      insert (resolve (cwd (boot ''/repo'')) ''jules-scratch/verification/profile_page.png'')
        (dom (files (boot ''/repo'')))"
    by blast
  from screenshot_path_relative_to_cwd [of "boot ''/tmp/''" good_env] ok2
  have d2: "dom (files (snd (main good_env (boot ''/tmp/'')))) =
      insert (resolve (cwd (boot ''/tmp/'')) ''jules-scratch/verification/profile_page.png'')
        (dom (files (boot ''/tmp/'')))"
    by blast
  from d1 d2 r1 r2 e show ?thesis by (simp only:)
qed

lemma perform_world:
  assumes "page_world t = page_world s"
  shows "fst (perform env c t) = fst (perform env c s)
       \<and> page_world (snd (perform env c t)) = page_world (snd (perform env c s))"
  using assms
  by (cases c; simp add: call_defs Let_def split: sum.splits prod.splits option.splits)

lemma made_Nil: "made env [] s = []"
  by (simp add: made_def)

lemma made_Cons:
  "made env (c # cs) s =
     c # (case perform env c s of (Inl e, s1) \<Rightarrow> [] | (Inr u, s1) \<Rightarrow> made env cs s1)"
proof -
  obtain r s1 where p: "perform env c s = (r, s1)" by (cases "perform env c s")
  have c1: "calls s1 = calls s @ [c]" using perform_calls [of env c s] p by simp
  show ?thesis
  proof (cases r)
    case (Inl e)
    with p c1 show ?thesis by (simp add: made_def)
  next
    case (Inr u)
    from run_seq_calls_prefix [of cs env s1] obtain k where
      k: "calls (snd (run_seq env cs s1)) = calls s1 @ take k cs" by blast
    have "made env (c # cs) s = c # take k cs" using p Inr k c1 by (simp add: made_def)
    moreover have "made env cs s1 = take k cs" using k by (simp add: made_def)
    ultimately show ?thesis using p Inr by simp
  qed
qed

lemma run_seq_world:
  assumes "page_world t = page_world s"
  shows "fst (run_seq env cs t) = fst (run_seq env cs s)
       \<and> page_world (snd (run_seq env cs t)) = page_world (snd (run_seq env cs s))
       \<and> made env cs t = made env cs s"
  using assms
proof (induction cs arbitrary: s t)
  case Nil
  then show ?case by (simp add: made_Nil)
next
  case (Cons c cs)
  obtain r s1 where ps: "perform env c s = (r, s1)" by (cases "perform env c s")
  obtain r' t1 where pt: "perform env c t = (r', t1)" by (cases "perform env c t")
  from perform_world [OF Cons.prems, of env c] ps pt
  have rr: "r' = r" and ww: "page_world t1 = page_world s1" by simp_all
  show ?case
  proof (cases r)
    case (Inl e)
    with ps pt rr ww show ?thesis by (simp add: made_Cons)
  next
    case (Inr u)
    from Cons.IH [OF ww] ps pt rr Inr show ?thesis by (simp add: made_Cons)
  qed
qed

lemma calls_made:
  "calls (snd (run_seq env cs s)) = calls s @ made env cs s"
proof -
  from run_seq_calls_prefix [of cs env s] obtain k where
    "calls (snd (run_seq env cs s)) = calls s @ take k cs" by blast
  then show ?thesis by (simp add: made_def)
qed


lemma main_run_calls_made:
  "run_calls env s =
     EnterPlaywright # made env body_calls (playwright_enter s) @ [ExitPlaywright]"
proof -
  let ?B = "snd (run_seq env body_calls (playwright_enter s))"
  have ce: "calls (playwright_enter s) = calls s @ [EnterPlaywright]"
    by (simp add: calls_def playwright_enter_def record_call_def)
  have cb: "calls ?B = calls s @ [EnterPlaywright] @ made env body_calls (playwright_enter s)"
    using calls_made [of env body_calls "playwright_enter s"] ce by simp
  have "calls (snd (main env s)) = calls ?B @ [ExitPlaywright]"
    by (simp add: main_snd calls_def exit_fields)
  then have "calls s @ run_calls env s =
      calls s @ EnterPlaywright # made env body_calls (playwright_enter s) @ [ExitPlaywright]"
    using cb main_calls_grow [of env s] by simp
  then show ?thesis by simp
qed

text \<open>The outcome and the calls of a run depend on the process state only through what a
  newly opened page shows.\<close>

lemma main_fresh:
  assumes "env_new_page env (page_world t) = env_new_page env (page_world s)"
  shows "fst (main env t) = fst (main env s) \<and> run_calls env t = run_calls env s"
proof -
  let ?rest = "script_calls @ [CloseBrowser]"
  have bc: "body_calls = Launch True # NewPage # ?rest" by (simp add: body_calls_def)
  have "fst (run_seq env body_calls (playwright_enter t))
          = fst (run_seq env body_calls (playwright_enter s))
      \<and> made env body_calls (playwright_enter t) = made env body_calls (playwright_enter s)"
  proof (cases "env_launch env True")
    case (Some e)
    then show ?thesis by (simp add: bc made_Cons chromium_launch_def)
  next
    case None
    obtain t1 where lt: "chromium_launch env True (playwright_enter t) = (Inr (), t1)"
      and wt: "page_world t1 = page_world t"
      using None by (simp add: call_defs)
    obtain s1 where ls: "chromium_launch env True (playwright_enter s) = (Inr (), s1)"
      and ws: "page_world s1 = page_world s"
      using None by (simp add: call_defs)
    show ?thesis
    proof (cases "env_new_page env (page_world s)")
      case (Inl e)
      then have "fst (browser_new_page env t1) = Inl e" "fst (browser_new_page env s1) = Inl e"
        using assms wt ws by (simp_all add: browser_new_page_def)
      then show ?thesis
        using lt ls by (auto simp: bc made_Cons split: prod.splits sum.splits)
    next
      case (Inr x)
      obtain t2 where nt: "browser_new_page env t1 = (Inr (), t2)" and wt2: "page_world t2 = x"
        using Inr assms wt by (simp add: browser_new_page_def record_call_def)
      obtain s2 where ns: "browser_new_page env s1 = (Inr (), s2)" and ws2: "page_world s2 = x"
        using Inr ws by (simp add: browser_new_page_def record_call_def)
      have "page_world t2 = page_world s2" using wt2 ws2 by simp
      from run_seq_world [OF this, of env ?rest]
      have "fst (run_seq env ?rest t2) = fst (run_seq env ?rest s2)"
        and "made env ?rest t2 = made env ?rest s2"
        by simp_all
      then show ?thesis using lt ls nt ns by (simp add: bc made_Cons)
    qed
  qed
  then show ?thesis by (simp add: main_fst main_run_calls_made)
qed

lemma script_inputs_first:
  "script_calls =
     [Goto ''http://localhost:3000/admin/login'',
      Fill (ByLabel ''Email Address'') ''admin@gorectus.local'',
      Fill (ByLabel ''Password'') ''admin123''] @ drop 3 script_calls"
  by (simp add: script_calls_def)

lemma script_rest_no_input: "\<forall>c\<in>set (drop 3 script_calls). \<not> carries_input c"
  by (simp add: script_calls_def carries_input_def)

lemma filter_inputs_take:
  "filter carries_input (take k script_calls) =
     take k [Goto ''http://localhost:3000/admin/login'',
             Fill (ByLabel ''Email Address'') ''admin@gorectus.local'',
             Fill (ByLabel ''Password'') ''admin123'']"
proof -
  let ?ins = "[Goto ''http://localhost:3000/admin/login'',
      Fill (ByLabel ''Email Address'') ''admin@gorectus.local'',
      Fill (ByLabel ''Password'') ''admin123'']"
  have all: "\<forall>c\<in>set ?ins. carries_input c" by (simp add: carries_input_def)
  have "set (take k ?ins) \<subseteq> set ?ins" by (rule set_take_subset)
  with all have "\<forall>c\<in>set (take k ?ins). carries_input c" by blast
  then have a: "filter carries_input (take k ?ins) = take k ?ins" by (simp only: filter_True)
  have b: "filter carries_input (take (k - 3) (drop 3 script_calls)) = []"
    by (rule filter_take_none [OF script_rest_no_input])
  have t1: "take k script_calls = take k (?ins @ drop 3 script_calls)"
    using script_inputs_first by (rule arg_cong)
  have t2: "take k (?ins @ drop 3 script_calls) =
      take k ?ins @ take (k - length ?ins) (drop 3 script_calls)"
    by (rule take_append)
  have t3: "length ?ins = 3" by simp
  have "take k script_calls = take k ?ins @ take (k - 3) (drop 3 script_calls)"
    using t1 t2 t3 by (simp only:)
  then have "filter carries_input (take k script_calls) =
      filter carries_input (take k ?ins) @ filter carries_input (take (k - 3) (drop 3 script_calls))"
    by (simp only: filter_append)
  with a b show ?thesis by (simp only: append_Nil2)
qed


subsection \<open>C7: the fixed literal inputs\<close>

text \<open>
  C7. The calls of a run that carry an input are a prefix of three fixed calls, non-empty
  when the entry point reaches the script and all three when the run succeeds: the
  navigation to \<^verbatim>\<open>http://localhost:3000/admin/login\<close>, the fill of the field labelled Email
  Address with \<^verbatim>\<open>admin@gorectus.local\<close> and the fill of the field labelled Password with
  \<^verbatim>\<open>admin123\<close>. The command line, the environment variables and the files of the process
  have no part in it: replacing them changes neither the calls of the run nor its outcome.
\<close>

theorem fixed_literal_inputs:
  "(\<exists>k. k \<le> 3
        \<and> (reaches_script env s \<longrightarrow> 1 \<le> k)
        \<and> (fst (main env s) = Inr () \<longrightarrow> k = 3)
        \<and> filter carries_input (run_calls env s) =
            take k [Goto ''http://localhost:3000/admin/login'',
                    Fill (ByLabel ''Email Address'') ''admin@gorectus.local'',
                    Fill (ByLabel ''Password'') ''admin123''])
   \<and> run_calls env (s\<lparr>argv := a, environ := ev, files := fl\<rparr>) = run_calls env s
   \<and> fst (main env (s\<lparr>argv := a, environ := ev, files := fl\<rparr>)) = fst (main env s)"
proof -
  let ?ins = "[Goto ''http://localhost:3000/admin/login'',
      Fill (ByLabel ''Email Address'') ''admin@gorectus.local'',
      Fill (ByLabel ''Password'') ''admin123'']"
  have first: "\<exists>k. k \<le> 3
        \<and> (reaches_script env s \<longrightarrow> 1 \<le> k)
        \<and> (fst (main env s) = Inr () \<longrightarrow> k = 3)
        \<and> filter carries_input (run_calls env s) = take k ?ins"
  proof (cases "reaches_script env s")
    case False
    have "filter carries_input (run_calls env s) = take 0 ?ins"
      by (simp add: main_run_calls_not_reaches [OF False] carries_input_def)
    moreover have "fst (main env s) \<noteq> Inr ()" using False by (simp add: main_ok_iff)
    ultimately have "(0::nat) \<le> 3 \<and> (reaches_script env s \<longrightarrow> 1 \<le> (0::nat))
        \<and> (fst (main env s) = Inr () \<longrightarrow> (0::nat) = 3)
        \<and> filter carries_input (run_calls env s) = take 0 ?ins"
      using False by simp
    then show ?thesis by blast
  next
    case True
    from main_run_calls_reaches [OF True] obtain k where k: "1 \<le> k" "k \<le> length script_calls"
      "fst (run_seq env script_calls (launched env s)) = Inr () \<longrightarrow> k = length script_calls"
      "run_calls env s =
          [EnterPlaywright, Launch True, NewPage] @ take k script_calls
          @ (if fst (run_seq env script_calls (launched env s)) = Inr () then [CloseBrowser] else [])
          @ [ExitPlaywright]"
      by blast
    have "filter carries_input (run_calls env s) = filter carries_input (take k script_calls)"
      by (simp add: k(4) carries_input_def)
    then have f: "filter carries_input (run_calls env s) = take (min k 3) ?ins"
      by (simp add: filter_inputs_take min_def)
    have len: "length script_calls = 10" by (simp add: script_calls_def)
    have "fst (main env s) = Inr () \<longrightarrow> k = 10"
      using k(3) len by (simp add: main_ok_iff)
    then have "min k 3 \<le> 3 \<and> (reaches_script env s \<longrightarrow> 1 \<le> min k 3)
        \<and> (fst (main env s) = Inr () \<longrightarrow> min k 3 = 3)"
      using k(1) by auto
    with f show ?thesis by blast
  qed
  have "env_new_page env (page_world (s\<lparr>argv := a, environ := ev, files := fl\<rparr>))
      = env_new_page env (page_world s)" by simp
  from main_fresh [OF this] first show ?thesis by blast
qed

text \<open>The theorem on the complete application, run once as started and once with a
  command-line flag, an environment variable and a configuration file in place.\<close>

theorem fixed_literal_inputs_witness:
  "filter carries_input (run_calls good_env (boot ''/repo'')) =
     [Goto ''http://localhost:3000/admin/login'',
      Fill (ByLabel ''Email Address'') ''admin@gorectus.local'',
      Fill (ByLabel ''Password'') ''admin123'']
   \<and> run_calls good_env ((boot ''/repo'')
        \<lparr>argv := [''verify_profile_page.py'', ''--base-url=http://example.org''],
         environ := [''BASE_URL'' \<mapsto> ''http://example.org''],
         files := [''/repo/config.json'' \<mapsto> ''password=other'']\<rparr>)
      = run_calls good_env (boot ''/repo'')"
proof -
  have ok: "fst (main good_env (boot ''/repo'')) = Inr ()" by (simp add: eval_defs)
  from fixed_literal_inputs [where env = good_env and s = "boot ''/repo''"
      and a = "[''verify_profile_page.py'', ''--base-url=http://example.org'']"
      and ev = "[''BASE_URL'' \<mapsto> ''http://example.org'']"
      and fl = "[''/repo/config.json'' \<mapsto> ''password=other'']"] ok
  show ?thesis by auto
qed

subsection \<open>C9: a second run\<close>




end
